theory Spec2Isabelle
  imports Main
begin

section \<open>The Markov-chain tweet generator of \<^verbatim>\<open>app.py\<close>\<close>

text \<open>
  The only function of \<^verbatim>\<open>app.py\<close> with logic of its own is
  \<^verbatim>\<open>generate_markov_tweet(chain, length=20, seed=None)\<close>:
  \<^verbatim>\<open>
    if not chain:
        return "Not enough data to generate a tweet."
    if seed and seed in chain:
        word = seed
    else:
        word = random.choice(list(chain.keys()))
    tweet_words = [word]
    for _ in range(length - 1):
        next_words = chain.get(word, [])
        if not next_words:
            break
        word = random.choice(next_words)
        tweet_words.append(word)
    return " ".join(tweet_words)
  \<close>
\<close>

subsection \<open>Data\<close>

text \<open>
  A transition table is a Python \<^verbatim>\<open>dict\<close> read from JSON: words to lists of words. It is
  an association list in the dict's insertion order, since \<^verbatim>\<open>list(chain.keys())\<close> is
  indexed by position. A dict has no key twice; no theorem below needs that, lookups take
  the first entry of a key.
\<close>

type_synonym chain = "(string \<times> string list) list"

text \<open>The one exception the function's calls can raise: \<^verbatim>\<open>random.choice\<close> on an empty
  sequence.\<close>

datatype error = IndexError

text \<open>
  The random source. \<^verbatim>\<open>random.choice(seq)\<close> is \<^verbatim>\<open>seq[self._randbelow(len(seq))]\<close> on the
  module's hidden generator, whose state every call advances. The generator is a tape of
  raw draws and the position of the next one; the draw is reduced below \<^verbatim>\<open>len(seq)\<close>, so
  that every selection of an index in range is the behaviour of some tape, and nothing
  else is assumed of the tape.
\<close>

record random_source =
  draws :: "nat \<Rightarrow> nat"
  pos :: nat

definition random_choice :: "random_source \<Rightarrow> 'a list \<Rightarrow> error + ('a \<times> random_source)" where
  "random_choice g seq =
     (if seq = [] then Inl IndexError
      else Inr (seq ! (draws g (pos g) mod length seq), g\<lparr>pos := Suc (pos g)\<rparr>))"

text \<open>A mocked random source: the listed raw draws in order, then zeros.\<close>

definition mock_source :: "nat list \<Rightarrow> random_source" where
  "mock_source xs = \<lparr>draws = (\<lambda>k. if k < length xs then xs ! k else 0), pos = 0\<rparr>"

subsection \<open>Operations\<close>

text \<open>\<^verbatim>\<open>chain.keys()\<close>, \<^verbatim>\<open>chain.get(word, [])\<close> and \<^verbatim>\<open>" ".join(tweet_words)\<close>.\<close>

definition chain_keys :: "chain \<Rightarrow> string list" where
  "chain_keys chain = map fst chain"

definition chain_get :: "chain \<Rightarrow> string \<Rightarrow> string list" where
  "chain_get chain word = (case map_of chain word of None \<Rightarrow> [] | Some next_words \<Rightarrow> next_words)"

fun join_words :: "string list \<Rightarrow> string" where
  "join_words [] = []"
| "join_words [w] = w"
| "join_words (w # v # ws) = w @ '' '' @ join_words (v # ws)"

definition sentinel :: string where
  "sentinel = ''Not enough data to generate a tweet.''"

text \<open>
  The start word. \<^verbatim>\<open>seed and seed in chain\<close> holds for a seed that is neither \<^verbatim>\<open>None\<close> nor
  the empty string and is a key of the table; the random branch draws from
  \<^verbatim>\<open>list(chain.keys())\<close>.
\<close>

definition start_word :: "chain \<Rightarrow> string option \<Rightarrow> random_source \<Rightarrow> error + (string \<times> random_source)" where
  "start_word chain seed g =
     (case seed of
        None \<Rightarrow> random_choice g (chain_keys chain)
      | Some s \<Rightarrow>
          if s \<noteq> [] \<and> s \<in> set (chain_keys chain) then Inr (s, g)
          else random_choice g (chain_keys chain))"

text \<open>
  The loop \<^verbatim>\<open>for _ in range(length - 1)\<close>, with the number of iterations left, the
  current \<^verbatim>\<open>word\<close>, the list \<^verbatim>\<open>tweet_words\<close> built so far and the random source.
\<close>

fun markov_walk ::
  "chain \<Rightarrow> nat \<Rightarrow> string \<Rightarrow> string list \<Rightarrow> random_source \<Rightarrow> error + (string list \<times> random_source)" where
  "markov_walk chain 0 word tweet_words g = Inr (tweet_words, g)"
| "markov_walk chain (Suc n) word tweet_words g =
     (let next_words = chain_get chain word in
      if next_words = [] then Inr (tweet_words, g)
      else (case random_choice g next_words of
              Inl e \<Rightarrow> Inl e
            | Inr (word', g') \<Rightarrow> markov_walk chain n word' (tweet_words @ [word']) g'))"

text \<open>
  The list \<^verbatim>\<open>tweet_words\<close> at the \<^verbatim>\<open>return\<close>, for a table that is not empty.
  The parameter \<^verbatim>\<open>length\<close> is \<open>len\<close> here (\<open>length\<close> is HOL's list length);
  \<^verbatim>\<open>range(length - 1)\<close> is empty for \<^verbatim>\<open>length \<le> 1\<close>.
\<close>

definition tweet_words_of ::
  "chain \<Rightarrow> int \<Rightarrow> string option \<Rightarrow> random_source \<Rightarrow> error + (string list \<times> random_source)" where
  "tweet_words_of chain len seed g =
     (case start_word chain seed g of
        Inl e \<Rightarrow> Inl e
      | Inr (word, g') \<Rightarrow> markov_walk chain (nat (len - 1)) word [word] g')"

definition generate_markov_tweet ::
  "chain \<Rightarrow> int \<Rightarrow> string option \<Rightarrow> random_source \<Rightarrow> error + (string \<times> random_source)" where
  "generate_markov_tweet chain len seed g =
     (if chain = [] then Inr (sentinel, g)
      else (case tweet_words_of chain len seed g of
              Inl e \<Rightarrow> Inl e
            | Inr (tweet_words, g') \<Rightarrow> Inr (join_words tweet_words, g')))"

text \<open>
  A list of words is a path of the table when each word but the first is in the successor
  list of the word before it.
\<close>

fun chain_path :: "chain \<Rightarrow> string list \<Rightarrow> bool" where
  "chain_path chain [] = True"
| "chain_path chain [w] = True"
| "chain_path chain (w # v # ws) = (v \<in> set (chain_get chain w) \<and> chain_path chain (v # ws))"

subsection \<open>The call on the store\<close>

text \<open>
  The same function with the objects it handles made explicit. A Python list is an object
  on the heap, reached through references: the dict \<^verbatim>\<open>chain\<close> holds a reference to each
  successor list, \<^verbatim>\<open>chain.get(word, [])\<close> returns that reference (or a new empty list), and
  \<^verbatim>\<open>tweet_words.append(word)\<close> writes to the object \<^verbatim>\<open>tweet_words\<close> refers to. The state is the
  dict, the list objects by address, and the generator of the \<^verbatim>\<open>random\<close> module. Strings
  are immutable and stay values.
\<close>

type_synonym addr = nat

record py_state =
  chain_obj :: "(string \<times> addr) list"
  heap :: "string list list"
  rng :: random_source

text \<open>A list display or \<^verbatim>\<open>list(...)\<close> allocates a new object, at the next free address.\<close>

definition new_list :: "string list \<Rightarrow> py_state \<Rightarrow> addr \<times> py_state" where
  "new_list xs \<sigma> = (length (heap \<sigma>), \<sigma>\<lparr>heap := heap \<sigma> @ [xs]\<rparr>)"

text \<open>\<^verbatim>\<open>xs.append(x)\<close> on the object at address \<open>a\<close>.\<close>

definition list_append :: "addr \<Rightarrow> string \<Rightarrow> py_state \<Rightarrow> py_state" where
  "list_append a x \<sigma> = \<sigma>\<lparr>heap := (heap \<sigma>)[a := heap \<sigma> ! a @ [x]]\<rparr>"

text \<open>\<^verbatim>\<open>random.choice\<close> on the object at address \<open>a\<close>: reads the list, advances the generator.\<close>

definition choice_at :: "addr \<Rightarrow> py_state \<Rightarrow> error + (string \<times> py_state)" where
  "choice_at a \<sigma> =
     (case random_choice (rng \<sigma>) (heap \<sigma> ! a) of
        Inl e \<Rightarrow> Inl e
      | Inr (x, g') \<Rightarrow> Inr (x, \<sigma>\<lparr>rng := g'\<rparr>))"

text \<open>
  \<^verbatim>\<open>chain.get(word, [])\<close>: the argument \<^verbatim>\<open>[]\<close> is a new empty list at every call; the result
  is the stored reference, or the reference to that new list.
\<close>

definition dict_get :: "string \<Rightarrow> py_state \<Rightarrow> addr \<times> py_state" where
  "dict_get word \<sigma> =
     (case new_list [] \<sigma> of
        (dflt, \<sigma>') \<Rightarrow>
          (case map_of (chain_obj \<sigma>') word of
             None \<Rightarrow> (dflt, \<sigma>')
           | Some a \<Rightarrow> (a, \<sigma>')))"

text \<open>\<^verbatim>\<open>random.choice(list(chain.keys()))\<close>.\<close>

definition choose_key :: "py_state \<Rightarrow> error + (string \<times> py_state)" where
  "choose_key \<sigma> = (case new_list (map fst (chain_obj \<sigma>)) \<sigma> of (ks, \<sigma>') \<Rightarrow> choice_at ks \<sigma>')"

definition start_word_st :: "string option \<Rightarrow> py_state \<Rightarrow> error + (string \<times> py_state)" where
  "start_word_st seed \<sigma> =
     (case seed of
        None \<Rightarrow> choose_key \<sigma>
      | Some s \<Rightarrow>
          if s \<noteq> [] \<and> s \<in> set (map fst (chain_obj \<sigma>)) then Inr (s, \<sigma>)
          else choose_key \<sigma>)"

text \<open>The loop; \<open>tw\<close> is the address of \<^verbatim>\<open>tweet_words\<close>.\<close>

fun markov_walk_st :: "nat \<Rightarrow> string \<Rightarrow> addr \<Rightarrow> py_state \<Rightarrow> error + py_state" where
  "markov_walk_st 0 word tw \<sigma> = Inr \<sigma>"
| "markov_walk_st (Suc n) word tw \<sigma> =
     (case dict_get word \<sigma> of
        (next_words, \<sigma>1) \<Rightarrow>
          if heap \<sigma>1 ! next_words = [] then Inr \<sigma>1
          else (case choice_at next_words \<sigma>1 of
                  Inl e \<Rightarrow> Inl e
                | Inr (word', \<sigma>2) \<Rightarrow> markov_walk_st n word' tw (list_append tw word' \<sigma>2)))"

definition generate_markov_tweet_st :: "int \<Rightarrow> string option \<Rightarrow> py_state \<Rightarrow> error + (string \<times> py_state)" where
  "generate_markov_tweet_st len seed \<sigma> =
     (if chain_obj \<sigma> = [] then Inr (sentinel, \<sigma>)
      else (case start_word_st seed \<sigma> of
              Inl e \<Rightarrow> Inl e
            | Inr (word, \<sigma>1) \<Rightarrow>
                (case new_list [word] \<sigma>1 of
                   (tw, \<sigma>2) \<Rightarrow>
                     (case markov_walk_st (nat (len - 1)) word tw \<sigma>2 of
                        Inl e \<Rightarrow> Inl e
                      | Inr \<sigma>3 \<Rightarrow> Inr (join_words (heap \<sigma>3 ! tw), \<sigma>3)))))"

text \<open>
  The table a state holds, as a value: each key with the contents of the list its
  reference points to. In a state of a running program every reference of the dict is the
  address of an allocated list.
\<close>

definition chain_of :: "py_state \<Rightarrow> chain" where
  "chain_of \<sigma> = map (\<lambda>(k, a). (k, heap \<sigma> ! a)) (chain_obj \<sigma>)"

definition refs_allocated :: "py_state \<Rightarrow> bool" where
  "refs_allocated \<sigma> = list_all (\<lambda>(k, a). a < length (heap \<sigma>)) (chain_obj \<sigma>)"

section \<open>Properties of the walk\<close>

subsection \<open>Auxiliary facts\<close>

lemma random_choice_Inr:
  "seq \<noteq> [] \<Longrightarrow> \<exists>x. random_choice g seq = Inr (x, g\<lparr>pos := Suc (pos g)\<rparr>) \<and> x \<in> set seq"
  by (simp add: random_choice_def)

lemma markov_walk_spec:
  "\<exists>ws. markov_walk chain n word tweet_words g = Inr (tweet_words @ ws, g\<lparr>pos := pos g + length ws\<rparr>)
     \<and> length ws \<le> n \<and> chain_path chain (word # ws)
     \<and> (length ws < n \<longrightarrow> chain_get chain (last (word # ws)) = [])"
proof (induction n arbitrary: word tweet_words g)
  case 0
  show ?case by simp
next
  case (Suc n)
  show ?case
  proof (cases "chain_get chain word = []")
    case True
    then show ?thesis by simp
  next
    case False
    from random_choice_Inr [OF this, of g] obtain w' where
      rc: "random_choice g (chain_get chain word) = Inr (w', g\<lparr>pos := Suc (pos g)\<rparr>)"
      and mem: "w' \<in> set (chain_get chain word)" by blast
    from Suc.IH [of w' "tweet_words @ [w']" "g\<lparr>pos := Suc (pos g)\<rparr>"] obtain ws where
      w: "markov_walk chain n w' (tweet_words @ [w']) (g\<lparr>pos := Suc (pos g)\<rparr>)
            = Inr ((tweet_words @ [w']) @ ws, g\<lparr>pos := Suc (pos g) + length ws\<rparr>)"
      and l: "length ws \<le> n" and p: "chain_path chain (w' # ws)"
      and d: "length ws < n \<longrightarrow> chain_get chain (last (w' # ws)) = []" by auto
    show ?thesis
    proof (intro exI [of _ "w' # ws"] conjI)
      show "markov_walk chain (Suc n) word tweet_words g
              = Inr (tweet_words @ w' # ws, g\<lparr>pos := pos g + length (w' # ws)\<rparr>)"
        using False rc w by simp
      show "length (w' # ws) \<le> Suc n" using l by simp
      show "chain_path chain (word # w' # ws)" using mem p by simp
      show "length (w' # ws) < Suc n \<longrightarrow> chain_get chain (last (word # w' # ws)) = []"
        using d by simp
    qed
  qed
qed

lemma start_word_spec:
  assumes "chain \<noteq> []"
  shows "\<exists>w k. start_word chain seed g = Inr (w, g\<lparr>pos := pos g + k\<rparr>)
          \<and> w \<in> set (chain_keys chain) \<and> k \<le> 1"
proof -
  have ne: "chain_keys chain \<noteq> []" using assms by (simp add: chain_keys_def)
  from random_choice_Inr [OF ne, of g] obtain w where
    rc: "random_choice g (chain_keys chain) = Inr (w, g\<lparr>pos := Suc (pos g)\<rparr>)"
    and mem: "w \<in> set (chain_keys chain)" by blast
  show ?thesis
  proof (cases "\<exists>s. seed = Some s \<and> s \<noteq> [] \<and> s \<in> set (chain_keys chain)")
    case True
    then obtain s where "seed = Some s" "s \<noteq> []" "s \<in> set (chain_keys chain)" by blast
    then show ?thesis
      by (intro exI [of _ s] exI [of _ 0]) (simp add: start_word_def)
  next
    case False
    then have "start_word chain seed g = random_choice g (chain_keys chain)"
      by (auto simp: start_word_def split: option.splits)
    with rc mem False show ?thesis
      by (intro exI [of _ w] exI [of _ 1]) (auto split: option.splits)
  qed
qed

lemma tweet_words_of_spec:
  assumes "chain \<noteq> []"
  shows "\<exists>w ws k. tweet_words_of chain len seed g = Inr (w # ws, g\<lparr>pos := pos g + k + length ws\<rparr>)
          \<and> start_word chain seed g = Inr (w, g\<lparr>pos := pos g + k\<rparr>)
          \<and> w \<in> set (chain_keys chain) \<and> k \<le> 1
          \<and> length ws \<le> nat (len - 1) \<and> chain_path chain (w # ws)
          \<and> (length ws < nat (len - 1) \<longrightarrow> chain_get chain (last (w # ws)) = [])"
proof -
  from start_word_spec [OF assms, of seed g] obtain w k where
    sw: "start_word chain seed g = Inr (w, g\<lparr>pos := pos g + k\<rparr>)"
    and mem: "w \<in> set (chain_keys chain)" and k: "k \<le> 1" by blast
  from markov_walk_spec [of chain "nat (len - 1)" w "[w]" "g\<lparr>pos := pos g + k\<rparr>"] obtain ws where
    mw: "markov_walk chain (nat (len - 1)) w [w] (g\<lparr>pos := pos g + k\<rparr>)
           = Inr ([w] @ ws, g\<lparr>pos := pos g + k + length ws\<rparr>)"
    and l: "length ws \<le> nat (len - 1)" and p: "chain_path chain (w # ws)"
    and d: "length ws < nat (len - 1) \<longrightarrow> chain_get chain (last (w # ws)) = []" by auto
  have "tweet_words_of chain len seed g = Inr (w # ws, g\<lparr>pos := pos g + k + length ws\<rparr>)"
    using sw mw by (simp add: tweet_words_of_def)
  with sw mem k l p d show ?thesis by blast
qed

lemma join_words_starts: "take (length w) (join_words (w # ws)) = w"
  by (cases ws) simp_all

lemma generate_of_tweet_words:
  "chain \<noteq> [] \<Longrightarrow> tweet_words_of chain len seed g = Inr (ws, g')
     \<Longrightarrow> generate_markov_tweet chain len seed g = Inr (join_words ws, g')"
  by (simp add: generate_markov_tweet_def)

lemma chain_path_nth:
  "chain_path chain ws \<Longrightarrow> Suc i < length ws \<Longrightarrow> ws ! Suc i \<in> set (chain_get chain (ws ! i))"
proof (induction chain ws arbitrary: i rule: chain_path.induct)
  case (3 chain w v ws)
  then show ?case by (cases i) auto
qed simp_all

lemma chain_get_mem:
  "v \<in> set (chain_get chain w) \<Longrightarrow> \<exists>next_words. map_of chain w = Some next_words \<and> v \<in> set next_words"
  by (cases "map_of chain w") (simp_all add: chain_get_def)

lemma markov_walk_dead_end:
  "chain_get chain word = [] \<Longrightarrow> markov_walk chain n word tweet_words g = Inr (tweet_words, g)"
  by (cases n) simp_all

lemma chain_path_not_dead_end:
  "chain_path chain ws \<Longrightarrow> Suc i < length ws \<Longrightarrow> chain_get chain (ws ! i) \<noteq> []"
  using chain_path_nth [of chain ws i] by auto

lemma markov_walk_agree:
  assumes "pos g1 = pos g2"
    and "\<forall>k. pos g1 \<le> k \<and> k < pos g1 + n \<longrightarrow> draws g1 k = draws g2 k"
  shows "\<exists>ws m. markov_walk chain n word tweet_words g1 = Inr (ws, g1\<lparr>pos := m\<rparr>)
              \<and> markov_walk chain n word tweet_words g2 = Inr (ws, g2\<lparr>pos := m\<rparr>)"
  using assms
proof (induction n arbitrary: word tweet_words g1 g2)
  case 0
  then show ?case by (intro exI [of _ tweet_words] exI [of _ "pos g1"]) simp
next
  case (Suc n)
  show ?case
  proof (cases "chain_get chain word = []")
    case True
    with Suc.prems(1) show ?thesis by (intro exI [of _ tweet_words] exI [of _ "pos g1"]) simp
  next
    case False
    let ?w = "chain_get chain word ! (draws g1 (pos g1) mod length (chain_get chain word))"
    have d: "draws g2 (pos g2) = draws g1 (pos g1)" using Suc.prems by simp
    have "\<exists>ws m. markov_walk chain n ?w (tweet_words @ [?w]) (g1\<lparr>pos := Suc (pos g1)\<rparr>)
                    = Inr (ws, g1\<lparr>pos := Suc (pos g1)\<rparr>\<lparr>pos := m\<rparr>)
                \<and> markov_walk chain n ?w (tweet_words @ [?w]) (g2\<lparr>pos := Suc (pos g2)\<rparr>)
                    = Inr (ws, g2\<lparr>pos := Suc (pos g2)\<rparr>\<lparr>pos := m\<rparr>)"
      using Suc.prems by (intro Suc.IH) simp_all
    with False d show ?thesis by (simp add: random_choice_def Let_def)
  qed
qed

subsection \<open>The claims\<close>

text \<open>
  C1: for a table that is not empty and a positive requested length, the call returns
  the words of \<^verbatim>\<open>tweet_words\<close> joined by spaces, and \<^verbatim>\<open>tweet_words\<close> has at least 1 and at most
  \<^verbatim>\<open>length\<close> entries (the start word is always one of them).
\<close>

theorem generate_word_count:
  assumes "chain \<noteq> []" and "0 < len"
  shows "\<exists>ws g'. tweet_words_of chain len seed g = Inr (ws, g')
           \<and> generate_markov_tweet chain len seed g = Inr (join_words ws, g')
           \<and> 1 \<le> length ws \<and> int (length ws) \<le> len"
proof -
  from tweet_words_of_spec [OF assms(1), of len seed g] obtain w ws k where
    tw: "tweet_words_of chain len seed g = Inr (w # ws, g\<lparr>pos := pos g + k + length ws\<rparr>)"
    and l: "length ws \<le> nat (len - 1)" by blast
  have "int (length (w # ws)) \<le> len" using l assms(2) by simp
  with tw generate_of_tweet_words [OF assms(1) tw] show ?thesis by fastforce
qed

theorem generate_word_count_witness:
  "[(''a'', [''b'', ''b'', ''c''])] \<noteq> [] \<and> (0::int) < 3
   \<and> (\<exists>ws g'. tweet_words_of [(''a'', [''b'', ''b'', ''c''])] 3 (Some ''a'') (mock_source [2]) = Inr (ws, g')
           \<and> generate_markov_tweet [(''a'', [''b'', ''b'', ''c''])] 3 (Some ''a'') (mock_source [2]) = Inr (join_words ws, g')
           \<and> 1 \<le> length ws \<and> int (length ws) \<le> 3)"
  using generate_word_count [of "[(''a'', [''b'', ''b'', ''c''])]" 3 "Some ''a''" "mock_source [2]"]
  by simp

text \<open>
  C2: for the empty table the call returns exactly the sentinel string, for every
  requested length, every seed and every random source, and draws nothing.
\<close>

theorem empty_table_sentinel:
  "generate_markov_tweet [] len seed g = Inr (''Not enough data to generate a tweet.'', g)"
  by (simp add: generate_markov_tweet_def sentinel_def)

text \<open>
  C3: a seed that is a non-empty string and a key of the table (which is then not empty) is
  the first word of the generated sequence, and the returned string begins with it.
\<close>

theorem valid_seed_is_first_word:
  assumes "s \<noteq> []" and "s \<in> set (chain_keys chain)"
  shows "\<exists>ws g'. tweet_words_of chain len (Some s) g = Inr (s # ws, g')
           \<and> generate_markov_tweet chain len (Some s) g = Inr (join_words (s # ws), g')
           \<and> take (length s) (join_words (s # ws)) = s"
proof -
  have ne: "chain \<noteq> []" using assms(2) by (auto simp: chain_keys_def)
  have sw: "start_word chain (Some s) g = Inr (s, g)"
    using assms by (simp add: start_word_def)
  from tweet_words_of_spec [OF ne, of len "Some s" g] obtain w ws k where
    tw: "tweet_words_of chain len (Some s) g = Inr (w # ws, g\<lparr>pos := pos g + k + length ws\<rparr>)"
    and sw': "start_word chain (Some s) g = Inr (w, g\<lparr>pos := pos g + k\<rparr>)" by blast
  from sw sw' have "w = s" by simp
  with tw generate_of_tweet_words [OF ne tw] join_words_starts [of s ws] show ?thesis by blast
qed

theorem valid_seed_is_first_word_witness:
  "''x'' \<noteq> [] \<and> ''x'' \<in> set (chain_keys [(''x'', [''y'']), (''y'', [''x''])])
   \<and> (\<exists>ws g'. tweet_words_of [(''x'', [''y'']), (''y'', [''x''])] 3 (Some ''x'') (mock_source []) = Inr (''x'' # ws, g')
          \<and> generate_markov_tweet [(''x'', [''y'']), (''y'', [''x''])] 3 (Some ''x'') (mock_source [])
               = Inr (join_words (''x'' # ws), g')
          \<and> take (length ''x'') (join_words (''x'' # ws)) = ''x'')"
  using valid_seed_is_first_word [of "''x''" "[(''x'', [''y'']), (''y'', [''x''])]" 3 "mock_source []"]
  by (simp add: chain_keys_def)

text \<open>
  C4: for a table that is not empty, when the seed is absent, the empty string or not a
  key of the table, the first word is drawn from the list of the table's keys: it is the
  key at the index the random source selects, an element of the key set.
\<close>

theorem fallback_first_word_is_key:
  assumes "chain \<noteq> []"
    and "seed = None \<or> seed = Some [] \<or> (\<exists>s. seed = Some s \<and> s \<notin> set (chain_keys chain))"
  shows "\<exists>w ws g'. tweet_words_of chain len seed g = Inr (w # ws, g')
           \<and> generate_markov_tweet chain len seed g = Inr (join_words (w # ws), g')
           \<and> w = chain_keys chain ! (draws g (pos g) mod length (chain_keys chain))
           \<and> w \<in> set (chain_keys chain)"
proof -
  have ne: "chain_keys chain \<noteq> []" using assms(1) by (simp add: chain_keys_def)
  have "start_word chain seed g = random_choice g (chain_keys chain)"
    using assms(2) by (auto simp: start_word_def)
  then have sw: "start_word chain seed g
      = Inr (chain_keys chain ! (draws g (pos g) mod length (chain_keys chain)), g\<lparr>pos := Suc (pos g)\<rparr>)"
    using ne by (simp add: random_choice_def)
  from tweet_words_of_spec [OF assms(1), of len seed g] obtain w ws k where
    tw: "tweet_words_of chain len seed g = Inr (w # ws, g\<lparr>pos := pos g + k + length ws\<rparr>)"
    and sw': "start_word chain seed g = Inr (w, g\<lparr>pos := pos g + k\<rparr>)"
    and mem: "w \<in> set (chain_keys chain)" by blast
  from sw sw' have "w = chain_keys chain ! (draws g (pos g) mod length (chain_keys chain))" by simp
  with tw mem generate_of_tweet_words [OF assms(1) tw] show ?thesis by blast
qed

theorem fallback_first_word_is_key_witness:
  "[(''x'', [''y'']), (''y'', [''x''])] \<noteq> []
   \<and> (Some ''z'' = None \<or> Some ''z'' = Some [] \<or>
        (\<exists>s. Some ''z'' = Some s \<and> s \<notin> set (chain_keys [(''x'', [''y'']), (''y'', [''x''])])))
   \<and> (\<exists>w ws g'. tweet_words_of [(''x'', [''y'']), (''y'', [''x''])] 2 (Some ''z'') (mock_source [3]) = Inr (w # ws, g')
           \<and> generate_markov_tweet [(''x'', [''y'']), (''y'', [''x''])] 2 (Some ''z'') (mock_source [3])
                = Inr (join_words (w # ws), g')
           \<and> w = chain_keys [(''x'', [''y'']), (''y'', [''x''])]
                   ! (draws (mock_source [3]) (pos (mock_source [3]))
                        mod length (chain_keys [(''x'', [''y'']), (''y'', [''x''])]))
           \<and> w \<in> set (chain_keys [(''x'', [''y'']), (''y'', [''x''])]))"
  using fallback_first_word_is_key [of "[(''x'', [''y'']), (''y'', [''x''])]" "Some ''z''" 2 "mock_source [3]"]
  by (simp add: chain_keys_def)

text \<open>
  C5: in the loop, when the current word has no entry in the table or an empty successor
  list, the walk ends at once with the words built so far, in both cases alike, without an
  exception and without a draw. So a call on a table that is not empty never raises, and a
  word of its sequence that has no successors is the last one.
\<close>

theorem dead_end_stops_walk:
  "(map_of chain word = None \<or> map_of chain word = Some []
      \<longrightarrow> markov_walk chain n word tweet_words g = Inr (tweet_words, g))
   \<and> (chain \<noteq> [] \<longrightarrow>
        (\<exists>ws g'. tweet_words_of chain len seed g = Inr (ws, g')
           \<and> generate_markov_tweet chain len seed g = Inr (join_words ws, g')
           \<and> (\<forall>i < length ws. map_of chain (ws ! i) = None \<or> map_of chain (ws ! i) = Some []
                  \<longrightarrow> Suc i = length ws)))"
proof (intro conjI impI)
  assume "map_of chain word = None \<or> map_of chain word = Some []"
  then have "chain_get chain word = []" by (auto simp: chain_get_def)
  then show "markov_walk chain n word tweet_words g = Inr (tweet_words, g)"
    by (rule markov_walk_dead_end)
next
  assume ne: "chain \<noteq> []"
  from tweet_words_of_spec [OF ne, of len seed g] obtain w ws k where
    tw: "tweet_words_of chain len seed g = Inr (w # ws, g\<lparr>pos := pos g + k + length ws\<rparr>)"
    and p: "chain_path chain (w # ws)" by blast
  have "Suc i = length (w # ws)"
    if "i < length (w # ws)"
      and "map_of chain ((w # ws) ! i) = None \<or> map_of chain ((w # ws) ! i) = Some []" for i
  proof (rule ccontr)
    assume "Suc i \<noteq> length (w # ws)"
    with that(1) have "Suc i < length (w # ws)" by simp
    from chain_path_not_dead_end [OF p this] that(2) show False
      by (auto simp: chain_get_def)
  qed
  with tw generate_of_tweet_words [OF ne tw]
  show "\<exists>ws g'. tweet_words_of chain len seed g = Inr (ws, g')
           \<and> generate_markov_tweet chain len seed g = Inr (join_words ws, g')
           \<and> (\<forall>i < length ws. map_of chain (ws ! i) = None \<or> map_of chain (ws ! i) = Some []
                  \<longrightarrow> Suc i = length ws)"
    by blast
qed

theorem dead_end_stops_walk_witness:
  "map_of [(''a'', [''b'', ''c'']), (''c'', [])] ''c'' = Some []
   \<and> markov_walk [(''a'', [''b'', ''c'']), (''c'', [])] 7 ''c'' [''a'', ''c''] (mock_source [1])
        = Inr ([''a'', ''c''], mock_source [1])
   \<and> [(''a'', [''b'', ''c'']), (''c'', [])] \<noteq> []
   \<and> (\<exists>ws g'. tweet_words_of [(''a'', [''b'', ''c'']), (''c'', [])] 8 (Some ''a'') (mock_source [1]) = Inr (ws, g')
           \<and> generate_markov_tweet [(''a'', [''b'', ''c'']), (''c'', [])] 8 (Some ''a'') (mock_source [1])
                = Inr (join_words ws, g')
           \<and> (\<forall>i < length ws. map_of [(''a'', [''b'', ''c'']), (''c'', [])] (ws ! i) = None
                    \<or> map_of [(''a'', [''b'', ''c'']), (''c'', [])] (ws ! i) = Some []
                  \<longrightarrow> Suc i = length ws))"
proof -
  have h: "map_of [(''a'', [''b'', ''c'']), (''c'', [])] ''c'' = Some []"
    by simp
  have ne: "[(''a'', [''b'', ''c'']), (''c'', [])] \<noteq> ([] :: chain)" by simp
  from dead_end_stops_walk [of "[(''a'', [''b'', ''c'']), (''c'', [])]" "''c''" 7 "[''a'', ''c'']"
      "mock_source [1]" 8 "Some ''a''"] h ne
  show ?thesis by blast
qed

text \<open>
  C6: for the table \<^verbatim>\<open>{"x": ["y"], "y": ["x"]}\<close>, length 5 and seed \<^verbatim>\<open>"x"\<close> the call returns
  \<^verbatim>\<open>"x y x y x"\<close> whatever the random source is (four draws are consumed, each from a
  one-element list).
\<close>

theorem two_cycle_scenario:
  "generate_markov_tweet [(''x'', [''y'']), (''y'', [''x''])] 5 (Some ''x'') g
     = Inr (''x y x y x'', g\<lparr>pos := pos g + 4\<rparr>)"
  by (simp add: generate_markov_tweet_def tweet_words_of_def start_word_def chain_keys_def
      chain_get_def random_choice_def eval_nat_numeral)

text \<open>
  C7: two runs on the same table, length and seed whose random sources stand at the same
  position and give the same draws there (over the at most \<open>max 1 length\<close> draws a run can
  consume) return the same string and leave their sources at the same position. Two runs
  with the same random source are the special case.
\<close>

theorem same_draws_same_tweet:
  assumes "pos g1 = pos g2"
    and "\<forall>k. pos g1 \<le> k \<and> k < pos g1 + nat (max 1 len) \<longrightarrow> draws g1 k = draws g2 k"
  shows "\<exists>out m. generate_markov_tweet chain len seed g1 = Inr (out, g1\<lparr>pos := m\<rparr>)
               \<and> generate_markov_tweet chain len seed g2 = Inr (out, g2\<lparr>pos := m\<rparr>)"
proof (cases "chain = []")
  case True
  with assms(1) show ?thesis
    by (intro exI [of _ sentinel] exI [of _ "pos g1"]) (simp add: generate_markov_tweet_def)
next
  case ne: False
  have walk: "\<exists>ws m. markov_walk chain (nat (len - 1)) w [w] (g1\<lparr>pos := p\<rparr>) = Inr (ws, g1\<lparr>pos := m\<rparr>)
                   \<and> markov_walk chain (nat (len - 1)) w [w] (g2\<lparr>pos := p\<rparr>) = Inr (ws, g2\<lparr>pos := m\<rparr>)"
    if "p = pos g1 \<or> p = Suc (pos g1)" for w p
  proof -
    have "\<forall>k. p \<le> k \<and> k < p + nat (len - 1) \<longrightarrow> draws g1 k = draws g2 k"
      using that assms(2) by auto
    then have "\<exists>ws m. markov_walk chain (nat (len - 1)) w [w] (g1\<lparr>pos := p\<rparr>)
                      = Inr (ws, g1\<lparr>pos := p\<rparr>\<lparr>pos := m\<rparr>)
                  \<and> markov_walk chain (nat (len - 1)) w [w] (g2\<lparr>pos := p\<rparr>)
                      = Inr (ws, g2\<lparr>pos := p\<rparr>\<lparr>pos := m\<rparr>)"
      by (intro markov_walk_agree) simp_all
    then show ?thesis by simp
  qed
  have keys: "chain_keys chain \<noteq> []" using ne by (simp add: chain_keys_def)
  have d: "draws g2 (pos g2) = draws g1 (pos g1)" using assms by simp
  have "\<exists>ws m. tweet_words_of chain len seed g1 = Inr (ws, g1\<lparr>pos := m\<rparr>)
             \<and> tweet_words_of chain len seed g2 = Inr (ws, g2\<lparr>pos := m\<rparr>)"
  proof (cases "\<exists>s. seed = Some s \<and> s \<noteq> [] \<and> s \<in> set (chain_keys chain)")
    case True
    then obtain s where "seed = Some s" "s \<noteq> []" "s \<in> set (chain_keys chain)" by blast
    then have "start_word chain seed g1 = Inr (s, g1\<lparr>pos := pos g1\<rparr>)"
      "start_word chain seed g2 = Inr (s, g2\<lparr>pos := pos g1\<rparr>)"
      using assms(1) by (simp_all add: start_word_def)
    with walk [of "pos g1" s] show ?thesis by (simp add: tweet_words_of_def)
  next
    case False
    let ?w = "chain_keys chain ! (draws g1 (pos g1) mod length (chain_keys chain))"
    from False have "start_word chain seed g1 = random_choice g1 (chain_keys chain)"
      "start_word chain seed g2 = random_choice g2 (chain_keys chain)"
      by (auto simp: start_word_def split: option.splits)
    with keys d assms(1) have "start_word chain seed g1 = Inr (?w, g1\<lparr>pos := Suc (pos g1)\<rparr>)"
      "start_word chain seed g2 = Inr (?w, g2\<lparr>pos := Suc (pos g1)\<rparr>)"
      by (simp_all add: random_choice_def)
    with walk [of "Suc (pos g1)" ?w] show ?thesis by (simp add: tweet_words_of_def)
  qed
  then obtain ws m where "tweet_words_of chain len seed g1 = Inr (ws, g1\<lparr>pos := m\<rparr>)"
    "tweet_words_of chain len seed g2 = Inr (ws, g2\<lparr>pos := m\<rparr>)" by blast
  with ne show ?thesis
    by (intro exI [of _ "join_words ws"] exI [of _ m]) (simp add: generate_markov_tweet_def)
qed

theorem same_draws_same_tweet_witness:
  "pos (mock_source [1, 0, 5]) = pos (mock_source [1, 0, 7])
   \<and> draws (mock_source [1, 0, 5]) 0 = draws (mock_source [1, 0, 7]) 0
   \<and> draws (mock_source [1, 0, 5]) 1 = draws (mock_source [1, 0, 7]) 1
   \<and> draws (mock_source [1, 0, 5]) 2 \<noteq> draws (mock_source [1, 0, 7]) 2
   \<and> (\<exists>out m. generate_markov_tweet [(''x'', [''y'']), (''y'', [''x''])] 2 None (mock_source [1, 0, 5])
                  = Inr (out, (mock_source [1, 0, 5])\<lparr>pos := m\<rparr>)
             \<and> generate_markov_tweet [(''x'', [''y'']), (''y'', [''x''])] 2 None (mock_source [1, 0, 7])
                  = Inr (out, (mock_source [1, 0, 7])\<lparr>pos := m\<rparr>))"
proof -
  have h1: "pos (mock_source [1, 0, 5]) = pos (mock_source [1, 0, 7])"
    by (simp add: mock_source_def)
  have h2: "\<forall>k. pos (mock_source [1, 0, 5]) \<le> k \<and> k < pos (mock_source [1, 0, 5]) + nat (max 1 2)
          \<longrightarrow> draws (mock_source [1, 0, 5]) k = draws (mock_source [1, 0, 7]) k"
    by (simp add: mock_source_def nth_Cons split: nat.splits)
  have h3: "draws (mock_source [1, 0, 5]) 0 = draws (mock_source [1, 0, 7]) 0
      \<and> draws (mock_source [1, 0, 5]) 1 = draws (mock_source [1, 0, 7]) 1
      \<and> draws (mock_source [1, 0, 5]) 2 \<noteq> draws (mock_source [1, 0, 7]) 2"
    by (simp add: mock_source_def)
  from same_draws_same_tweet [OF h1 h2, of "[(''x'', [''y'']), (''y'', [''x''])]" None] h1 h3
  show ?thesis by blast
qed

text \<open>
  C8: for a table that is not empty and a requested length of zero or less, the call
  raises nothing and returns a single word, a key of the table: \<^verbatim>\<open>range(length - 1)\<close> is
  empty and no list is indexed.
\<close>

theorem nonpositive_length_single_word:
  assumes "chain \<noteq> []" and "len \<le> 0"
  shows "\<exists>w g'. tweet_words_of chain len seed g = Inr ([w], g')
           \<and> generate_markov_tweet chain len seed g = Inr (w, g')
           \<and> w \<in> set (chain_keys chain)"
proof -
  from tweet_words_of_spec [OF assms(1), of len seed g] obtain w ws k where
    tw: "tweet_words_of chain len seed g = Inr (w # ws, g\<lparr>pos := pos g + k + length ws\<rparr>)"
    and mem: "w \<in> set (chain_keys chain)"
    and l: "length ws \<le> nat (len - 1)" by blast
  from l assms(2) have "ws = []" by simp
  with tw mem generate_of_tweet_words [OF assms(1) tw] show ?thesis by fastforce
qed

theorem nonpositive_length_single_word_witness:
  "[(''a'', [''b'', ''b'', ''c''])] \<noteq> [] \<and> (- 3 :: int) \<le> 0
   \<and> (\<exists>w g'. tweet_words_of [(''a'', [''b'', ''b'', ''c''])] (- 3) None (mock_source [2]) = Inr ([w], g')
           \<and> generate_markov_tweet [(''a'', [''b'', ''b'', ''c''])] (- 3) None (mock_source [2]) = Inr (w, g')
           \<and> w \<in> set (chain_keys [(''a'', [''b'', ''b'', ''c''])]))"
  using nonpositive_length_single_word [of "[(''a'', [''b'', ''b'', ''c''])]" "- 3" None "mock_source [2]"]
  by simp

text \<open>
  C10: for a table that is not empty, every word of the generated sequence after the first
  is an element of the successor list the table stores under the word before it.
\<close>

theorem generated_words_follow_table:
  assumes "chain \<noteq> []"
  shows "\<exists>ws g'. tweet_words_of chain len seed g = Inr (ws, g')
           \<and> generate_markov_tweet chain len seed g = Inr (join_words ws, g')
           \<and> (\<forall>i. Suc i < length ws \<longrightarrow>
                 (\<exists>next_words. map_of chain (ws ! i) = Some next_words \<and> ws ! Suc i \<in> set next_words))"
proof -
  from tweet_words_of_spec [OF assms, of len seed g] obtain w ws k where
    tw: "tweet_words_of chain len seed g = Inr (w # ws, g\<lparr>pos := pos g + k + length ws\<rparr>)"
    and p: "chain_path chain (w # ws)" by blast
  have "\<exists>next_words. map_of chain ((w # ws) ! i) = Some next_words \<and> (w # ws) ! Suc i \<in> set next_words"
    if "Suc i < length (w # ws)" for i
    using chain_path_nth [OF p that] by (rule chain_get_mem)
  with tw generate_of_tweet_words [OF assms tw] show ?thesis by blast
qed

theorem generated_words_follow_table_witness:
  "[(''a'', [''b'', ''b'', ''c'']), (''c'', [''a''])] \<noteq> []
   \<and> (\<exists>ws g'. tweet_words_of [(''a'', [''b'', ''b'', ''c'']), (''c'', [''a''])] 4 (Some ''a'') (mock_source [2]) = Inr (ws, g')
           \<and> generate_markov_tweet [(''a'', [''b'', ''b'', ''c'']), (''c'', [''a''])] 4 (Some ''a'') (mock_source [2])
                = Inr (join_words ws, g')
           \<and> (\<forall>i. Suc i < length ws \<longrightarrow>
                 (\<exists>next_words. map_of [(''a'', [''b'', ''b'', ''c'']), (''c'', [''a''])] (ws ! i) = Some next_words
                    \<and> ws ! Suc i \<in> set next_words)))"
  using generated_words_follow_table [of "[(''a'', [''b'', ''b'', ''c'']), (''c'', [''a''])]" 4 "Some ''a''" "mock_source [2]"]
  by simp

section \<open>Properties of the call on the store\<close>

subsection \<open>Auxiliary facts\<close>

lemma choice_at_spec:
  assumes "heap \<sigma> ! a \<noteq> []"
  shows "choice_at a \<sigma> = Inr (heap \<sigma> ! a ! (draws (rng \<sigma>) (pos (rng \<sigma>)) mod length (heap \<sigma> ! a)),
                            \<sigma>\<lparr>rng := (rng \<sigma>)\<lparr>pos := Suc (pos (rng \<sigma>))\<rparr>\<rparr>)"
  using assms by (simp add: choice_at_def random_choice_def)

lemma dict_get_frame:
  assumes "dict_get word \<sigma> = (a, \<sigma>1)"
  shows "chain_obj \<sigma>1 = chain_obj \<sigma> \<and> rng \<sigma>1 = rng \<sigma> \<and> heap \<sigma>1 = heap \<sigma> @ [[]]"
  using assms by (auto simp: dict_get_def new_list_def split: option.splits)

lemma markov_walk_st_frame:
  assumes "tw < length (heap \<sigma>)" and "L \<le> tw"
  shows "\<exists>\<sigma>'. markov_walk_st n word tw \<sigma> = Inr \<sigma>'
           \<and> chain_obj \<sigma>' = chain_obj \<sigma>
           \<and> take L (heap \<sigma>') = take L (heap \<sigma>)
           \<and> draws (rng \<sigma>') = draws (rng \<sigma>)
           \<and> pos (rng \<sigma>) \<le> pos (rng \<sigma>') \<and> pos (rng \<sigma>') \<le> pos (rng \<sigma>) + n"
  using assms
proof (induction n arbitrary: word \<sigma>)
  case 0
  then show ?case by simp
next
  case (Suc n)
  obtain a \<sigma>1 where dg: "dict_get word \<sigma> = (a, \<sigma>1)" by (cases "dict_get word \<sigma>")
  from dict_get_frame [OF dg] have
    c1: "chain_obj \<sigma>1 = chain_obj \<sigma>" and r1: "rng \<sigma>1 = rng \<sigma>"
    and l1: "heap \<sigma>1 = heap \<sigma> @ [[]]" by auto
  from l1 Suc.prems have t1: "take L (heap \<sigma>1) = take L (heap \<sigma>)"
    and tw1: "tw < length (heap \<sigma>1)" by auto
  show ?case
  proof (cases "heap \<sigma>1 ! a = []")
    case True
    with dg c1 r1 t1 show ?thesis by simp
  next
    case False
    let ?w = "heap \<sigma>1 ! a ! (draws (rng \<sigma>1) (pos (rng \<sigma>1)) mod length (heap \<sigma>1 ! a))"
    let ?s2 = "\<sigma>1\<lparr>rng := (rng \<sigma>1)\<lparr>pos := Suc (pos (rng \<sigma>1))\<rparr>\<rparr>"
    let ?s3 = "list_append tw ?w ?s2"
    have tw3: "tw < length (heap ?s3)" using tw1 by (simp add: list_append_def)
    from Suc.IH [OF tw3 Suc.prems(2), of ?w] obtain \<sigma>' where
      w: "markov_walk_st n ?w tw ?s3 = Inr \<sigma>'"
      and c: "chain_obj \<sigma>' = chain_obj ?s3"
      and t: "take L (heap \<sigma>') = take L (heap ?s3)"
      and d: "draws (rng \<sigma>') = draws (rng ?s3)"
      and p: "pos (rng ?s3) \<le> pos (rng \<sigma>')" "pos (rng \<sigma>') \<le> pos (rng ?s3) + n" by blast
    have "markov_walk_st (Suc n) word tw \<sigma> = Inr \<sigma>'"
      using dg False w by (simp add: choice_at_spec [OF False])
    moreover have "chain_obj \<sigma>' = chain_obj \<sigma>" using c c1 by (simp add: list_append_def)
    moreover have "take L (heap \<sigma>') = take L (heap \<sigma>)"
      using t t1 Suc.prems(2) by (simp add: list_append_def)
    moreover have "draws (rng \<sigma>') = draws (rng \<sigma>)" using d r1 by (simp add: list_append_def)
    moreover have "pos (rng \<sigma>) \<le> pos (rng \<sigma>')" "pos (rng \<sigma>') \<le> pos (rng \<sigma>) + Suc n"
      using p r1 by (simp_all add: list_append_def)
    ultimately show ?thesis by blast
  qed
qed

lemma choose_key_spec:
  assumes "chain_obj \<sigma> \<noteq> []"
  shows "choose_key \<sigma>
     = Inr (map fst (chain_obj \<sigma>) ! (draws (rng \<sigma>) (pos (rng \<sigma>)) mod length (chain_obj \<sigma>)),
            \<sigma>\<lparr>heap := heap \<sigma> @ [map fst (chain_obj \<sigma>)], rng := (rng \<sigma>)\<lparr>pos := Suc (pos (rng \<sigma>))\<rparr>\<rparr>)"
  using assms by (simp add: choose_key_def new_list_def choice_at_def random_choice_def)

lemma start_word_st_frame:
  assumes "chain_obj \<sigma> \<noteq> []"
  shows "\<exists>w \<sigma>1. start_word_st seed \<sigma> = Inr (w, \<sigma>1)
           \<and> chain_obj \<sigma>1 = chain_obj \<sigma>
           \<and> take (length (heap \<sigma>)) (heap \<sigma>1) = heap \<sigma>
           \<and> draws (rng \<sigma>1) = draws (rng \<sigma>)
           \<and> pos (rng \<sigma>) \<le> pos (rng \<sigma>1) \<and> pos (rng \<sigma>1) \<le> pos (rng \<sigma>) + 1"
proof (cases "\<exists>s. seed = Some s \<and> s \<noteq> [] \<and> s \<in> set (map fst (chain_obj \<sigma>))")
  case True
  then obtain s where "seed = Some s" "s \<noteq> []" "s \<in> set (map fst (chain_obj \<sigma>))" by blast
  then show ?thesis by (simp add: start_word_st_def)
next
  case False
  then have "start_word_st seed \<sigma> = choose_key \<sigma>"
    by (auto simp: start_word_st_def split: option.splits)
  then show ?thesis by (simp add: choose_key_spec [OF assms])
qed

lemma chain_of_eq:
  assumes "list_all (\<lambda>(k, a). a < m) (chain_obj \<sigma>)"
    and "chain_obj \<sigma>' = chain_obj \<sigma>" and "take m (heap \<sigma>') = take m (heap \<sigma>)"
  shows "chain_of \<sigma>' = chain_of \<sigma>"
proof -
  have "heap \<sigma>' ! a = heap \<sigma> ! a" if "a < m" for a
    using that assms(3) by (metis nth_take)
  with assms(1,2) show ?thesis
    by (auto simp: chain_of_def list_all_iff)
qed

lemma map_of_chain_of:
  "map_of (chain_of \<sigma>) word = map_option (\<lambda>a. heap \<sigma> ! a) (map_of (chain_obj \<sigma>) word)"
  by (simp add: chain_of_def map_of_map)

lemma dict_get_refines:
  assumes "dict_get word \<sigma> = (a, \<sigma>1)"
    and "list_all (\<lambda>(k, a). a < length (heap \<sigma>)) (chain_obj \<sigma>)"
  shows "heap \<sigma>1 ! a = chain_get (chain_of \<sigma>) word"
proof (cases "map_of (chain_obj \<sigma>) word")
  case None
  with assms(1) show ?thesis
    by (auto simp: dict_get_def new_list_def chain_get_def map_of_chain_of)
next
  case (Some b)
  then have "(word, b) \<in> set (chain_obj \<sigma>)" by (rule map_of_SomeD)
  with assms(2) have "b < length (heap \<sigma>)" by (auto simp: list_all_iff)
  with Some assms(1) show ?thesis
    by (auto simp: dict_get_def new_list_def chain_get_def map_of_chain_of nth_append)
qed

lemma markov_walk_st_refines:
  assumes "tw < length (heap \<sigma>)" and "list_all (\<lambda>(k, a). a < tw) (chain_obj \<sigma>)"
  shows "\<exists>\<sigma>'. markov_walk_st n word tw \<sigma> = Inr \<sigma>'
           \<and> markov_walk (chain_of \<sigma>) n word (heap \<sigma> ! tw) (rng \<sigma>) = Inr (heap \<sigma>' ! tw, rng \<sigma>')"
  using assms
proof (induction n arbitrary: word \<sigma>)
  case 0
  then show ?case by simp
next
  case (Suc n)
  obtain a \<sigma>1 where dg: "dict_get word \<sigma> = (a, \<sigma>1)" by (cases "dict_get word \<sigma>")
  from dict_get_frame [OF dg] have
    c1: "chain_obj \<sigma>1 = chain_obj \<sigma>" and r1: "rng \<sigma>1 = rng \<sigma>"
    and l1: "heap \<sigma>1 = heap \<sigma> @ [[]]" by auto
  from l1 Suc.prems(1) have tw1: "tw < length (heap \<sigma>1)"
    and h1: "heap \<sigma>1 ! tw = heap \<sigma> ! tw" by (auto simp: nth_append)
  have "list_all (\<lambda>(k, a). a < length (heap \<sigma>)) (chain_obj \<sigma>)"
    using Suc.prems by (auto simp: list_all_iff)
  then have nw: "heap \<sigma>1 ! a = chain_get (chain_of \<sigma>) word" by (rule dict_get_refines [OF dg])
  show ?case
  proof (cases "heap \<sigma>1 ! a = []")
    case True
    with dg nw h1 r1 show ?thesis by simp
  next
    case False
    let ?w = "heap \<sigma>1 ! a ! (draws (rng \<sigma>1) (pos (rng \<sigma>1)) mod length (heap \<sigma>1 ! a))"
    let ?s2 = "\<sigma>1\<lparr>rng := (rng \<sigma>1)\<lparr>pos := Suc (pos (rng \<sigma>1))\<rparr>\<rparr>"
    let ?s3 = "list_append tw ?w ?s2"
    have tw3: "tw < length (heap ?s3)" using tw1 by (simp add: list_append_def)
    have c3: "chain_obj ?s3 = chain_obj \<sigma>" using c1 by (simp add: list_append_def)
    have t3: "take tw (heap ?s3) = take tw (heap \<sigma>)"
      using l1 Suc.prems(1) by (auto simp: list_append_def)
    have co: "chain_of ?s3 = chain_of \<sigma>" by (rule chain_of_eq [OF Suc.prems(2) c3 t3])
    have a3: "list_all (\<lambda>(k, a). a < tw) (chain_obj ?s3)" using Suc.prems(2) c3 by simp
    from Suc.IH [OF tw3 a3, of ?w] obtain \<sigma>' where
      ws: "markov_walk_st n ?w tw ?s3 = Inr \<sigma>'"
      and wp: "markov_walk (chain_of ?s3) n ?w (heap ?s3 ! tw) (rng ?s3) = Inr (heap \<sigma>' ! tw, rng \<sigma>')"
      by blast
    have h3: "heap ?s3 ! tw = heap \<sigma> ! tw @ [?w]" using tw1 h1 by (simp add: list_append_def)
    have r3: "rng ?s3 = (rng \<sigma>)\<lparr>pos := Suc (pos (rng \<sigma>))\<rparr>" using r1 by (simp add: list_append_def)
    have "markov_walk_st (Suc n) word tw \<sigma> = Inr \<sigma>'"
      using dg False ws by (simp add: choice_at_spec [OF False])
    moreover have "markov_walk (chain_of \<sigma>) (Suc n) word (heap \<sigma> ! tw) (rng \<sigma>) = Inr (heap \<sigma>' ! tw, rng \<sigma>')"
    proof -
      from wp have "markov_walk (chain_of \<sigma>) n ?w (heap \<sigma> ! tw @ [?w])
          ((rng \<sigma>)\<lparr>pos := Suc (pos (rng \<sigma>))\<rparr>) = Inr (heap \<sigma>' ! tw, rng \<sigma>')"
        unfolding co h3 r3 .
      with False nw r1 show ?thesis by (simp add: random_choice_def Let_def)
    qed
    ultimately show ?thesis by blast
  qed
qed

text \<open>
  On a state whose dict holds allocated references, the call on the store returns what
  \<open>generate_markov_tweet\<close> returns on the table the state holds, and leaves the random
  source as that function does.
\<close>

lemma generate_markov_tweet_st_refines:
  assumes "refs_allocated \<sigma>"
  shows "\<exists>out \<sigma>'. generate_markov_tweet_st len seed \<sigma> = Inr (out, \<sigma>')
           \<and> generate_markov_tweet (chain_of \<sigma>) len seed (rng \<sigma>) = Inr (out, rng \<sigma>')"
proof (cases "chain_obj \<sigma> = []")
  case True
  then show ?thesis by (simp add: generate_markov_tweet_st_def generate_markov_tweet_def chain_of_def)
next
  case ne: False
  have ne': "chain_of \<sigma> \<noteq> []" using ne by (simp add: chain_of_def)
  have keys: "chain_keys (chain_of \<sigma>) = map fst (chain_obj \<sigma>)"
    by (auto simp: chain_keys_def chain_of_def)
  have "\<exists>w \<sigma>1. start_word_st seed \<sigma> = Inr (w, \<sigma>1)
          \<and> start_word (chain_of \<sigma>) seed (rng \<sigma>) = Inr (w, rng \<sigma>1)
          \<and> chain_obj \<sigma>1 = chain_obj \<sigma> \<and> take (length (heap \<sigma>)) (heap \<sigma>1) = heap \<sigma>"
  proof (cases "\<exists>s. seed = Some s \<and> s \<noteq> [] \<and> s \<in> set (map fst (chain_obj \<sigma>))")
    case True
    then obtain s where "seed = Some s" "s \<noteq> []" "s \<in> set (map fst (chain_obj \<sigma>))" by blast
    then show ?thesis by (simp add: start_word_st_def start_word_def keys)
  next
    case False
    then have "start_word_st seed \<sigma> = choose_key \<sigma>"
      "start_word (chain_of \<sigma>) seed (rng \<sigma>) = random_choice (rng \<sigma>) (map fst (chain_obj \<sigma>))"
      by (auto simp: start_word_st_def start_word_def keys split: option.splits)
    with ne show ?thesis by (simp add: choose_key_spec [OF ne] random_choice_def)
  qed
  then obtain w \<sigma>1 where
    sws: "start_word_st seed \<sigma> = Inr (w, \<sigma>1)"
    and swp: "start_word (chain_of \<sigma>) seed (rng \<sigma>) = Inr (w, rng \<sigma>1)"
    and c1: "chain_obj \<sigma>1 = chain_obj \<sigma>"
    and t1: "take (length (heap \<sigma>)) (heap \<sigma>1) = heap \<sigma>" by blast
  let ?tw = "length (heap \<sigma>1)"
  let ?s2 = "\<sigma>1\<lparr>heap := heap \<sigma>1 @ [[w]]\<rparr>"
  have l1: "length (heap \<sigma>) \<le> length (heap \<sigma>1)"
    using t1 by (metis length_take min.cobounded1)
  have al: "list_all (\<lambda>(k, a). a < length (heap \<sigma>)) (chain_obj \<sigma>)"
    using assms by (simp add: refs_allocated_def)
  have co: "chain_of ?s2 = chain_of \<sigma>"
    using t1 l1 c1 by (intro chain_of_eq [OF al]) simp_all
  have a2: "list_all (\<lambda>(k, a). a < ?tw) (chain_obj ?s2)"
    using al l1 c1 by (auto simp: list_all_iff)
  have "?tw < length (heap ?s2)" by simp
  from markov_walk_st_refines [OF this a2, of "nat (len - 1)" w] obtain \<sigma>' where
    ws: "markov_walk_st (nat (len - 1)) w ?tw ?s2 = Inr \<sigma>'"
    and wp: "markov_walk (chain_of ?s2) (nat (len - 1)) w (heap ?s2 ! ?tw) (rng ?s2) = Inr (heap \<sigma>' ! ?tw, rng \<sigma>')"
    by blast
  have "generate_markov_tweet_st len seed \<sigma> = Inr (join_words (heap \<sigma>' ! ?tw), \<sigma>')"
    using ne sws ws by (simp add: generate_markov_tweet_st_def new_list_def)
  moreover have "generate_markov_tweet (chain_of \<sigma>) len seed (rng \<sigma>) = Inr (join_words (heap \<sigma>' ! ?tw), rng \<sigma>')"
    using ne' swp wp by (simp add: generate_markov_tweet_def tweet_words_of_def co)
  ultimately show ?thesis by blast
qed

subsection \<open>The frame of the call\<close>

text \<open>
  C9, as stated: the call leaves the table as it was and changes no other state. The second
  half fails: \<^verbatim>\<open>random.choice\<close> advances the generator of the \<^verbatim>\<open>random\<close> module. For the table
  \<^verbatim>\<open>{"a": ["b"]}\<close>, length 2 and no seed the call returns \<^verbatim>\<open>"a b"\<close> after two choices, and
  the generator that stood at position 0 stands at position 2.
\<close>

theorem call_advances_random_source:
  "map_sum id (map_prod id (pos \<circ> rng))
     (generate_markov_tweet_st 2 None \<lparr>chain_obj = [(''a'', 0)], heap = [[''b'']], rng = mock_source []\<rparr>)
     = Inr (''a b'', 2)
   \<and> pos (rng \<lparr>chain_obj = [(''a'', 0)], heap = [[''b'']], rng = mock_source []\<rparr>) = 0"
  by (simp add: generate_markov_tweet_st_def start_word_st_def choose_key_def new_list_def
      choice_at_def random_choice_def dict_get_def list_append_def mock_source_def eval_nat_numeral)

text \<open>
  C9, amended: for every table, length and seed, the call returns without an exception and
  the table is identical before and after it: the dict is unchanged and so is every list
  object that existed before the call (the call writes only to lists it allocates itself).
  The one other state it changes is the random source, which keeps its tape and advances
  by its draws, at most \<open>max 1 length\<close> of them; for an empty table it draws nothing and
  the whole state is as before.
\<close>

theorem table_unchanged_source_advanced:
  "\<exists>out \<sigma>'. generate_markov_tweet_st len seed \<sigma> = Inr (out, \<sigma>')
      \<and> chain_obj \<sigma>' = chain_obj \<sigma>
      \<and> take (length (heap \<sigma>)) (heap \<sigma>') = heap \<sigma>
      \<and> draws (rng \<sigma>') = draws (rng \<sigma>)
      \<and> pos (rng \<sigma>) \<le> pos (rng \<sigma>') \<and> pos (rng \<sigma>') \<le> pos (rng \<sigma>) + nat (max 1 len)
      \<and> (chain_obj \<sigma> = [] \<longrightarrow> \<sigma>' = \<sigma>)"
proof (cases "chain_obj \<sigma> = []")
  case True
  then show ?thesis by (simp add: generate_markov_tweet_st_def)
next
  case ne: False
  from start_word_st_frame [OF ne, of seed] obtain w \<sigma>1 where
    sw: "start_word_st seed \<sigma> = Inr (w, \<sigma>1)"
    and c1: "chain_obj \<sigma>1 = chain_obj \<sigma>"
    and t1: "take (length (heap \<sigma>)) (heap \<sigma>1) = heap \<sigma>"
    and d1: "draws (rng \<sigma>1) = draws (rng \<sigma>)"
    and p1: "pos (rng \<sigma>) \<le> pos (rng \<sigma>1)" "pos (rng \<sigma>1) \<le> pos (rng \<sigma>) + 1" by blast
  let ?tw = "length (heap \<sigma>1)"
  let ?s2 = "\<sigma>1\<lparr>heap := heap \<sigma>1 @ [[w]]\<rparr>"
  have l1: "length (heap \<sigma>) \<le> length (heap \<sigma>1)"
    using t1 by (metis length_take min.cobounded1)
  have "?tw < length (heap ?s2)" by simp
  from markov_walk_st_frame [OF this l1, of "nat (len - 1)" w] obtain \<sigma>' where
    w: "markov_walk_st (nat (len - 1)) w ?tw ?s2 = Inr \<sigma>'"
    and c: "chain_obj \<sigma>' = chain_obj ?s2"
    and t: "take (length (heap \<sigma>)) (heap \<sigma>') = take (length (heap \<sigma>)) (heap ?s2)"
    and d: "draws (rng \<sigma>') = draws (rng ?s2)"
    and p: "pos (rng ?s2) \<le> pos (rng \<sigma>')" "pos (rng \<sigma>') \<le> pos (rng ?s2) + nat (len - 1)" by blast
  have "generate_markov_tweet_st len seed \<sigma> = Inr (join_words (heap \<sigma>' ! ?tw), \<sigma>')"
    using ne sw w by (simp add: generate_markov_tweet_st_def new_list_def)
  moreover have "chain_obj \<sigma>' = chain_obj \<sigma>" using c c1 by simp
  moreover have "take (length (heap \<sigma>)) (heap \<sigma>') = heap \<sigma>" using t t1 l1 by simp
  moreover have "draws (rng \<sigma>') = draws (rng \<sigma>)" using d d1 by simp
  moreover have "pos (rng \<sigma>) \<le> pos (rng \<sigma>')" using p(1) p1(1) by simp
  moreover have "pos (rng \<sigma>') \<le> pos (rng \<sigma>) + nat (max 1 len)" using p(2) p1(2) by simp
  ultimately show ?thesis using ne by blast
qed

theorem table_unchanged_source_advanced_witness:
  "chain_obj \<lparr>chain_obj = [], heap = [[''b'']], rng = mock_source [3]\<rparr> = []
   \<and> generate_markov_tweet_st 10 (Some ''b'') \<lparr>chain_obj = [], heap = [[''b'']], rng = mock_source [3]\<rparr>
        = Inr (sentinel, \<lparr>chain_obj = [], heap = [[''b'']], rng = mock_source [3]\<rparr>)"
proof -
  have h: "chain_obj \<lparr>chain_obj = [], heap = [[''b'']], rng = mock_source [3]\<rparr> = []" by simp
  from table_unchanged_source_advanced
    [of 10 "Some ''b''" "\<lparr>chain_obj = [], heap = [[''b'']], rng = mock_source [3]\<rparr>"] h
  obtain out where "generate_markov_tweet_st 10 (Some ''b'') \<lparr>chain_obj = [], heap = [[''b'']], rng = mock_source [3]\<rparr>
        = Inr (out, \<lparr>chain_obj = [], heap = [[''b'']], rng = mock_source [3]\<rparr>)" by blast
  moreover have "out = sentinel" using calculation by (simp add: generate_markov_tweet_st_def)
  ultimately show ?thesis using h by simp
qed

end
